theory Spec2Isabelle
  imports Main "HOL-Library.Char_ord" "HOL-Library.List_Lexorder"
begin

section \<open>Stored values and the local storage area\<close>

text \<open>
  The migrations under \<^verbatim>\<open>src/storage/revisions/local/\<close> read and write three keys of
  \<^verbatim>\<open>browser.storage.local\<close>: \<^verbatim>\<open>engines\<close> and \<^verbatim>\<open>disabledEngines\<close> (arrays of engine
  identifiers) and \<^verbatim>\<open>storageVersion\<close> (a string). A stored value is therefore an array
  of strings or a string; a key that is not stored reads as \<^verbatim>\<open>undefined\<close>, which is
  \<open>None\<close> here. Identifiers are ASCII, so a \<open>string\<close> (a list of bytes) has the length
  and the order JavaScript gives it.
\<close>

datatype jsval = JArr "string list" | JStr string

datatype error = TypeError | StorageError

type_synonym js_object = "string \<rightharpoonup> jsval"

text \<open>
  The storage area is the stored object together with the list of the objects that
  were committed by \<^verbatim>\<open>set\<close>, oldest first, so that the number and the content of the
  writes of a procedure can be stated.
\<close>

record local_storage =
  stored :: js_object
  writes :: "js_object list"

text \<open>
  Modelled from the spec: \<^verbatim>\<open>browser.storage.local.get\<close>, of the persistence
  collaborator, is not part of the sources. \<^verbatim>\<open>get(keys)\<close> answers with the partial
  state of those of the keys that are stored. The values it hands out are copies, so
  changing them in place does not change the storage area.
\<close>

definition storage_local_get :: "string list \<Rightarrow> local_storage \<Rightarrow> js_object" where
  "storage_local_get keys st = stored st |` set keys"

text \<open>
  Modelled from the spec: \<^verbatim>\<open>browser.storage.local.set\<close>, of the persistence
  collaborator, is not part of the sources. \<^verbatim>\<open>set(partial state)\<close> either commits all
  of the given keys at once, leaving the other keys alone, or fails and commits none.
  Whether the backend accepts the write is the environment's choice, the argument
  \<open>accepted\<close>.
\<close>

definition storage_local_set ::
  "bool \<Rightarrow> js_object \<Rightarrow> local_storage \<Rightarrow> (error + unit) \<times> local_storage" where
  "storage_local_set accepted changes st =
     (if accepted
      then (Inr (), st\<lparr>stored := stored st ++ changes, writes := writes st @ [changes]\<rparr>)
      else (Inl StorageError, st))"

section \<open>The array operations the migrations use\<close>

text \<open>\<^verbatim>\<open>x.length\<close> of an array or of a string.\<close>

fun js_length :: "jsval \<Rightarrow> int" where
  "js_length (JArr xs) = int (length xs)"
| "js_length (JStr s) = int (length s)"

text \<open>\<^verbatim>\<open>xs.indexOf(x)\<close>: the index of the first element equal to \<open>x\<close>, or \<open>-1\<close>.\<close>

fun indexOf :: "'a list \<Rightarrow> 'a \<Rightarrow> int" where
  "indexOf [] x = -1"
| "indexOf (y # ys) x =
     (if y = x then 0
      else (let i = indexOf ys x in if i = -1 then -1 else i + 1))"

text \<open>
  \<^verbatim>\<open>xs.splice(start, 0, item)\<close>: nothing is deleted and \<open>item\<close> is inserted at \<open>start\<close>.
  A negative \<open>start\<close> counts from the end, and the position is clamped to the array.
\<close>

definition splice_insert :: "int \<Rightarrow> 'a \<Rightarrow> 'a list \<Rightarrow> 'a list" where
  "splice_insert start item xs =
     (let n = int (length xs);
          s = (if start < 0 then max (n + start) 0 else min start n)
      in take (nat s) xs @ [item] @ drop (nat s) xs)"

text \<open>\<^verbatim>\<open>xs.push(item)\<close>.\<close>

definition push :: "'a list \<Rightarrow> 'a \<Rightarrow> 'a list" where
  "push xs item = xs @ [item]"

section \<open>The migrations\<close>

text \<open>
  A migration file exports \<^verbatim>\<open>message\<close>, \<^verbatim>\<open>revision\<close> and \<^verbatim>\<open>upgrade\<close>. The two released
  files, and the template of \<^verbatim>\<open>newenginesreadme.md\<close>, have the same \<^verbatim>\<open>upgrade\<close> up to
  three constants: the revision, the new engine and the engine looked up by
  \<^verbatim>\<open>indexOf\<close>, called the anchor.
\<close>

record migration =
  message :: string
  revision :: string
  newEngine :: string
  anchor :: string

definition add_hive :: migration where
  "add_hive = \<lparr>message = ''Add Hive'', revision = ''20250611183700_add_hive'',
               newEngine = ''hive'', anchor = ''unsplash''\<rparr>"

definition add_copyseeker :: migration where
  "add_copyseeker = \<lparr>message = ''Add CopySeeker'',
                     revision = ''20250613183400_add_copyseeker'',
                     newEngine = ''copyseeker'', anchor = ''hive''\<rparr>"

text \<open>
  Lines 16 to 22 of \<^verbatim>\<open>upgrade\<close>: the new engine goes after the anchor, or to the end
  when \<^verbatim>\<open>indexOf\<close> answers \<open>-1\<close>.
\<close>

definition insert_engine :: "string \<Rightarrow> string \<Rightarrow> string list \<Rightarrow> string list" where
  "insert_engine anc new engines =
     (let anchorIndex = indexOf engines anc
      in if anchorIndex \<noteq> -1 then splice_insert (anchorIndex + 1) new engines
         else push engines new)"

text \<open>
  Lines 6 to 31: the object \<^verbatim>\<open>changes\<close>, or the \<^verbatim>\<open>TypeError\<close> that JavaScript raises.
  Reading \<^verbatim>\<open>.length\<close> of \<^verbatim>\<open>undefined\<close> raises (line 13); a string has a \<^verbatim>\<open>length\<close> but
  neither \<^verbatim>\<open>splice\<close> nor \<^verbatim>\<open>push\<close>, so calling them raises (lines 18, 21 and 27).
\<close>

definition upgrade_changes :: "migration \<Rightarrow> local_storage \<Rightarrow> error + js_object" where
  "upgrade_changes m st =
     (let got = storage_local_get [''engines'', ''disabledEngines''] st
      in case got ''engines'' of
           None \<Rightarrow> Inl TypeError
         | Some engines \<Rightarrow>
        (case got ''disabledEngines'' of
           None \<Rightarrow> Inl TypeError
         | Some disabledEngines \<Rightarrow>
        (let enabledEngineCount = js_length engines - js_length disabledEngines
         in case engines of
              JStr _ \<Rightarrow> Inl TypeError
            | JArr es \<Rightarrow>
           (let engines' = insert_engine (anchor m) (newEngine m) es
            in if enabledEngineCount \<ge> 8
               then (case disabledEngines of
                       JStr _ \<Rightarrow> Inl TypeError
                     | JArr ds \<Rightarrow>
                         Inr [''engines'' \<mapsto> JArr engines',
                              ''disabledEngines'' \<mapsto> JArr (push ds (newEngine m)),
                              ''storageVersion'' \<mapsto> JStr (revision m)])
               else Inr [''engines'' \<mapsto> JArr engines',
                         ''disabledEngines'' \<mapsto> disabledEngines,
                         ''storageVersion'' \<mapsto> JStr (revision m)]))))"

text \<open>
  The whole procedure: line 32 hands \<^verbatim>\<open>changes\<close> to \<^verbatim>\<open>set\<close>, the only write. An error
  before it leaves the storage area as it was.
\<close>

definition upgrade ::
  "migration \<Rightarrow> bool \<Rightarrow> local_storage \<Rightarrow> (error + unit) \<times> local_storage" where
  "upgrade m accepted st =
     (case upgrade_changes m st of
        Inl e \<Rightarrow> (Inl e, st)
      | Inr changes \<Rightarrow> storage_local_set accepted changes st)"

section \<open>Sequences of upgrades, the catalog and its revision keys\<close>

text \<open>
  Modelled from the spec: the Runner that calls the upgrade procedures is not part of
  the sources. It applies them one after the other, each to the storage area its
  predecessor left, and stops at the first one that fails (section 4.2, steps 3 and 4).
  Every step comes with the environment's answer to its write.
\<close>

fun run_upgrades ::
  "(migration \<times> bool) list \<Rightarrow> local_storage \<Rightarrow> (error + unit) \<times> local_storage" where
  "run_upgrades [] st = (Inr (), st)"
| "run_upgrades ((m, accepted) # rest) st =
     (case upgrade m accepted st of
        (Inl e, st') \<Rightarrow> (Inl e, st')
      | (Inr u, st') \<Rightarrow> run_upgrades rest st')"

text \<open>A storage area that holds the two engine lists and has seen no write.\<close>

definition engine_state :: "string list \<Rightarrow> string list \<Rightarrow> local_storage" where
  "engine_state es ds =
     \<lparr>stored = [''engines'' \<mapsto> JArr es, ''disabledEngines'' \<mapsto> JArr ds], writes = []\<rparr>"









section \<open>Insertion after the anchor\<close>

lemma indexOf_ge: "- 1 \<le> indexOf xs x"
  by (induction xs) (auto simp: Let_def)

lemma indexOf_absent: "indexOf xs x = - 1 \<longleftrightarrow> x \<notin> set xs"
proof (induction xs)
  case Nil
  show ?case by simp
next
  case (Cons y ys)
  have "- 1 \<le> indexOf ys x" by (rule indexOf_ge)
  with Cons show ?case by (auto simp: Let_def)
qed

lemma indexOf_first:
  "x \<notin> set pre \<Longrightarrow> indexOf (pre @ x # post) x = int (length pre)"
proof (induction pre)
  case Nil
  show ?case by simp
next
  case (Cons y ys)
  then have "indexOf (ys @ x # post) x = int (length ys)" by simp
  with Cons.prems show ?case by (auto simp: Let_def)
qed

lemma insert_engine_absent:
  "anc \<notin> set es \<Longrightarrow> insert_engine anc new es = es @ [new]"
  by (simp add: insert_engine_def indexOf_absent push_def)

lemma insert_engine_present:
  assumes "anc \<notin> set pre"
  shows "insert_engine anc new (pre @ anc # post) = pre @ anc # new # post"
proof -
  have i: "indexOf (pre @ anc # post) anc = int (length pre)"
    using assms by (rule indexOf_first)
  have "splice_insert (int (length pre) + 1) new (pre @ anc # post) = pre @ anc # new # post"
    by (simp add: splice_insert_def Let_def nat_add_distrib)
  with i show ?thesis by (simp add: insert_engine_def)
qed

lemma insert_engine_position:
  "\<exists>k\<le>length es. insert_engine anc new es = take k es @ new # drop k es"
proof (cases "anc \<in> set es")
  case False
  then have "insert_engine anc new es = take (length es) es @ new # drop (length es) es"
    by (simp add: insert_engine_absent)
  then show ?thesis by blast
next
  case True
  then obtain pre post where es: "es = pre @ anc # post" and pre: "anc \<notin> set pre"
    by (auto dest: split_list_first)
  have "insert_engine anc new es = take (Suc (length pre)) es @ new # drop (Suc (length pre)) es"
    using insert_engine_present[OF pre, of new post] by (simp add: es)
  moreover have "Suc (length pre) \<le> length es" by (simp add: es)
  ultimately show ?thesis by blast
qed

lemma length_insert_engine: "length (insert_engine anc new es) = Suc (length es)"
proof -
  obtain k where "k \<le> length es" "insert_engine anc new es = take k es @ new # drop k es"
    using insert_engine_position by blast
  then show ?thesis by simp
qed

lemma set_insert_engine: "set (insert_engine anc new es) = insert new (set es)"
proof -
  obtain k where k: "k \<le> length es" "insert_engine anc new es = take k es @ new # drop k es"
    using insert_engine_position by blast
  have "set (take k es) \<union> set (drop k es) = set es"
    by (metis append_take_drop_id set_append)
  with k show ?thesis by auto
qed

lemma distinct_insert_engine:
  assumes "distinct es" "new \<notin> set es"
  shows "distinct (insert_engine anc new es)"
proof -
  obtain k where k: "k \<le> length es" "insert_engine anc new es = take k es @ new # drop k es"
    using insert_engine_position by blast
  have "distinct (take k es)" "distinct (drop k es)"
       "set (take k es) \<inter> set (drop k es) = {}"
    using assms(1) by (simp_all add: set_take_disj_set_drop_if_distinct)
  moreover have "new \<notin> set (take k es)" "new \<notin> set (drop k es)"
    using assms(2) by (auto dest: in_set_takeD in_set_dropD)
  ultimately show ?thesis using k by simp
qed

lemma count_insert_engine:
  "count_list (insert_engine anc new es) new = Suc (count_list es new)"
proof -
  obtain k where k: "k \<le> length es" "insert_engine anc new es = take k es @ new # drop k es"
    using insert_engine_position by blast
  have "count_list (take k es @ drop k es) new = count_list es new" by simp
  then have "count_list (take k es) new + count_list (drop k es) new = count_list es new"
    by (simp only: count_list_append)
  with k show ?thesis by (simp add: count_list_append)
qed

lemma filter_insert_engine:
  assumes "new \<notin> set es"
  shows "filter (\<lambda>x. x \<noteq> new) (insert_engine anc new es) = es"
proof -
  obtain k where k: "k \<le> length es" "insert_engine anc new es = take k es @ new # drop k es"
    using insert_engine_position by blast
  have "new \<notin> set (take k es)" "new \<notin> set (drop k es)"
    using assms by (auto dest: in_set_takeD in_set_dropD)
  then have "filter (\<lambda>x. x \<noteq> new) (take k es) = take k es"
        and "filter (\<lambda>x. x \<noteq> new) (drop k es) = drop k es"
    by (auto simp: filter_id_conv)
  with k show ?thesis by simp
qed

lemma upgrade_changes_arrays:
  assumes "stored st ''engines'' = Some (JArr es)"
      and "stored st ''disabledEngines'' = Some (JArr ds)"
  shows "upgrade_changes m st =
           Inr [''engines'' \<mapsto> JArr (insert_engine (anchor m) (newEngine m) es),
                ''disabledEngines'' \<mapsto>
                   JArr (if 8 \<le> int (length es) - int (length ds)
                         then ds @ [newEngine m] else ds),
                ''storageVersion'' \<mapsto> JStr (revision m)]"
  using assms by (simp add: upgrade_changes_def storage_local_get_def push_def)

lemma upgrade_changes_keys:
  assumes "upgrade_changes m st = Inr changes"
  shows "dom changes = {''engines'', ''disabledEngines'', ''storageVersion''}
         \<and> changes ''storageVersion'' = Some (JStr (revision m))"
  using assms
  by (auto simp: upgrade_changes_def Let_def split: option.splits jsval.splits if_splits)

lemma upgrade_changes_absent:
  assumes "stored st ''engines'' = None \<or> stored st ''disabledEngines'' = None"
  shows "upgrade_changes m st = Inl TypeError"
  using assms
  by (auto simp: upgrade_changes_def storage_local_get_def split: option.splits)

lemma upgrade_changes_shape:
  assumes "upgrade_changes m st = Inr changes"
  shows "\<exists>es dv dv'.
      stored st ''engines'' = Some (JArr es) \<and> stored st ''disabledEngines'' = Some dv \<and>
      (int (length es) - js_length dv < 8 \<and> dv' = dv \<or>
       (\<exists>ds. dv = JArr ds \<and> 8 \<le> int (length es) - int (length ds) \<and>
             dv' = JArr (ds @ [newEngine m]))) \<and>
      changes = [''engines'' \<mapsto> JArr (insert_engine (anchor m) (newEngine m) es),
                 ''disabledEngines'' \<mapsto> dv',
                 ''storageVersion'' \<mapsto> JStr (revision m)]"
proof -
  from assms obtain ev dv where ev: "stored st ''engines'' = Some ev"
      and dv: "stored st ''disabledEngines'' = Some dv"
    by (auto simp: upgrade_changes_def storage_local_get_def split: option.splits)
  from assms ev dv obtain es where es: "ev = JArr es"
    by (cases ev) (auto simp: upgrade_changes_def storage_local_get_def)
  show ?thesis
  proof (cases "8 \<le> int (length es) - js_length dv")
    case False
    with assms ev dv es
    have "changes = [''engines'' \<mapsto> JArr (insert_engine (anchor m) (newEngine m) es),
                     ''disabledEngines'' \<mapsto> dv,
                     ''storageVersion'' \<mapsto> JStr (revision m)]"
      by (simp add: upgrade_changes_def storage_local_get_def)
    with ev dv es False show ?thesis by auto
  next
    case True
    with assms ev dv es obtain ds where ds: "dv = JArr ds"
      by (cases dv) (auto simp: upgrade_changes_def storage_local_get_def)
    with True assms ev dv es
    have "changes = [''engines'' \<mapsto> JArr (insert_engine (anchor m) (newEngine m) es),
                     ''disabledEngines'' \<mapsto> JArr (ds @ [newEngine m]),
                     ''storageVersion'' \<mapsto> JStr (revision m)]"
      by (simp add: upgrade_changes_def storage_local_get_def push_def)
    with ev dv es ds True show ?thesis by auto
  qed
qed

lemma upgrade_arrays:
  assumes "stored st ''engines'' = Some (JArr es)"
      and "stored st ''disabledEngines'' = Some (JArr ds)"
  shows "upgrade m accepted st =
           storage_local_set accepted
             [''engines'' \<mapsto> JArr (insert_engine (anchor m) (newEngine m) es),
              ''disabledEngines'' \<mapsto>
                 JArr (if 8 \<le> int (length es) - int (length ds)
                       then ds @ [newEngine m] else ds),
              ''storageVersion'' \<mapsto> JStr (revision m)] st"
  by (simp add: upgrade_def upgrade_changes_arrays[OF assms])

section \<open>Sequences of upgrades\<close>

lemma upgrade_changes_engines:
  assumes "upgrade_changes m st = Inr changes"
      and "stored st ''engines'' = Some (JArr es)"
  shows "changes ''engines'' = Some (JArr (insert_engine (anchor m) (newEngine m) es))"
  using assms
  by (auto simp: upgrade_changes_def storage_local_get_def Let_def
           split: option.splits jsval.splits if_splits)

lemma upgrade_engines_step:
  assumes "stored st ''engines'' = Some (JArr es)"
  shows "stored (snd (upgrade m accepted st)) ''engines'' = Some (JArr es) \<or>
         stored (snd (upgrade m accepted st)) ''engines''
           = Some (JArr (insert_engine (anchor m) (newEngine m) es))"
proof (cases "upgrade_changes m st")
  case (Inl e)
  with assms show ?thesis by (simp add: upgrade_def)
next
  case (Inr changes)
  from upgrade_changes_engines[OF Inr assms] assms Inr show ?thesis
    by (cases accepted) (simp_all add: upgrade_def storage_local_set_def)
qed

lemma run_upgrades_step:
  "snd (run_upgrades ((m, accepted) # rest) st) =
     (if fst (upgrade m accepted st) = Inr ()
      then snd (run_upgrades rest (snd (upgrade m accepted st)))
      else snd (upgrade m accepted st))"
  by (cases "upgrade m accepted st") (auto split: sum.splits)

lemma run_upgrades_distinct:
  assumes "stored st ''engines'' = Some (JArr es)"
      and "distinct es"
      and "distinct (map (\<lambda>p. newEngine (fst p)) ms)"
      and "set (map (\<lambda>p. newEngine (fst p)) ms) \<inter> set es = {}"
  shows "\<exists>es'. stored (snd (run_upgrades ms st)) ''engines'' = Some (JArr es') \<and> distinct es'"
  using assms
proof (induction ms arbitrary: st es)
  case Nil
  then show ?case by simp
next
  case (Cons p ms)
  obtain m accepted where p: "p = (m, accepted)" by (cases p)
  let ?st1 = "snd (upgrade m accepted st)"
  from Cons.prems p have new: "newEngine m \<notin> set es" by auto
  have "\<exists>es1. stored ?st1 ''engines'' = Some (JArr es1) \<and> distinct es1
              \<and> set es1 \<subseteq> insert (newEngine m) (set es)"
    using upgrade_engines_step[OF Cons.prems(1), of m accepted] Cons.prems(2) new
    by (auto simp: distinct_insert_engine set_insert_engine)
  then obtain es1 where es1: "stored ?st1 ''engines'' = Some (JArr es1)" "distinct es1"
      "set es1 \<subseteq> insert (newEngine m) (set es)" by blast
  have "set (map (\<lambda>p. newEngine (fst p)) ms) \<inter> insert (newEngine m) (set es) = {}"
    using Cons.prems(3,4) p by auto
  with es1(3) have disj: "set (map (\<lambda>p. newEngine (fst p)) ms) \<inter> set es1 = {}"
    by blast
  have rest: "distinct (map (\<lambda>p. newEngine (fst p)) ms)"
    using Cons.prems(3) by simp
  show ?case
  proof (cases "fst (upgrade m accepted st) = Inr ()")
    case True
    with Cons.IH[OF es1(1,2) rest disj] p show ?thesis
      by (simp del: run_upgrades.simps add: run_upgrades_step)
  next
    case False
    with es1 p show ?thesis by (simp del: run_upgrades.simps add: run_upgrades_step)
  qed
qed

lemma upgrade_lists_step:
  assumes "stored st ''engines'' = Some (JArr es)"
      and "stored st ''disabledEngines'' = Some (JArr ds)"
      and "set ds \<subseteq> set es"
  shows "\<exists>es' ds'. stored (snd (upgrade m accepted st)) ''engines'' = Some (JArr es') \<and>
           stored (snd (upgrade m accepted st)) ''disabledEngines'' = Some (JArr ds') \<and>
           set ds' \<subseteq> set es'"
  using assms
  by (cases accepted)
     (auto simp: upgrade_arrays[OF assms(1,2)] storage_local_set_def set_insert_engine)

lemma run_upgrades_subset:
  assumes "stored st ''engines'' = Some (JArr es)"
      and "stored st ''disabledEngines'' = Some (JArr ds)"
      and "set ds \<subseteq> set es"
  shows "\<exists>es' ds'. stored (snd (run_upgrades ms st)) ''engines'' = Some (JArr es') \<and>
           stored (snd (run_upgrades ms st)) ''disabledEngines'' = Some (JArr ds') \<and>
           set ds' \<subseteq> set es'"
  using assms
proof (induction ms arbitrary: st es ds)
  case Nil
  then show ?case by simp
next
  case (Cons p ms)
  obtain m accepted where p: "p = (m, accepted)" by (cases p)
  let ?st1 = "snd (upgrade m accepted st)"
  obtain es1 ds1 where s1: "stored ?st1 ''engines'' = Some (JArr es1)"
      "stored ?st1 ''disabledEngines'' = Some (JArr ds1)" "set ds1 \<subseteq> set es1"
    using upgrade_lists_step[OF Cons.prems, of m accepted] by blast
  show ?case
  proof (cases "fst (upgrade m accepted st) = Inr ()")
    case True
    with Cons.IH[OF s1] p show ?thesis by (simp del: run_upgrades.simps add: run_upgrades_step)
  next
    case False
    with s1 p show ?thesis by (simp del: run_upgrades.simps add: run_upgrades_step)
  qed
qed

lemmas upgrade_eval =
  upgrade_def upgrade_changes_def storage_local_get_def storage_local_set_def
  insert_engine_def splice_insert_def push_def engine_state_def Let_def

section \<open>Order of the revision keys\<close>










section \<open>The claims about a single upgrade\<close>

text \<open>
  C1 (threshold enablement). On a storage area that holds both engine lists, the
  upgrade succeeds when its write is accepted, and the stored \<^verbatim>\<open>disabledEngines\<close> is
  the old list with the new engine pushed exactly when the number of enabled engines
  before the insertion, \<open>length engines - length disabledEngines\<close>, is at least 8;
  with 7 or fewer it is the old list, unchanged.
\<close>
theorem threshold_enablement:
  assumes "stored st ''engines'' = Some (JArr es)"
      and "stored st ''disabledEngines'' = Some (JArr ds)"
  shows "fst (upgrade m True st) = Inr () \<and>
         stored (snd (upgrade m True st)) ''disabledEngines'' =
           Some (JArr (if 8 \<le> int (length es) - int (length ds)
                       then ds @ [newEngine m] else ds))"
  by (simp add: upgrade_arrays[OF assms] storage_local_set_def)

theorem threshold_enablement_witness:
  "stored (snd (upgrade add_hive True
       (engine_state [''a'', ''b'', ''c'', ''d'', ''e'', ''f'', ''g'', ''h''] [])))
     ''disabledEngines'' = Some (JArr [''hive''])
   \<and> stored (snd (upgrade add_hive True
       (engine_state [''a'', ''b'', ''c'', ''d'', ''e'', ''f'', ''g''] [])))
     ''disabledEngines'' = Some (JArr [])"
  using threshold_enablement
          [of "engine_state [''a'', ''b'', ''c'', ''d'', ''e'', ''f'', ''g'', ''h''] []"
              "[''a'', ''b'', ''c'', ''d'', ''e'', ''f'', ''g'', ''h'']" "[]" add_hive]
        threshold_enablement
          [of "engine_state [''a'', ''b'', ''c'', ''d'', ''e'', ''f'', ''g''] []"
              "[''a'', ''b'', ''c'', ''d'', ''e'', ''f'', ''g'']" "[]" add_hive]
  by (simp add: engine_state_def add_hive_def)

text \<open>
  C2 (anchor insertion). The stored \<^verbatim>\<open>engines\<close> has the new engine immediately after
  the first occurrence of the anchor, and at the end when the anchor does not occur.
\<close>
theorem anchor_insertion:
  assumes "stored st ''engines'' = Some (JArr es)"
      and "stored st ''disabledEngines'' = Some (JArr ds)"
  shows "fst (upgrade m True st) = Inr () \<and>
         (anchor m \<notin> set es \<longrightarrow>
            stored (snd (upgrade m True st)) ''engines'' = Some (JArr (es @ [newEngine m]))) \<and>
         (\<forall>pre post. es = pre @ anchor m # post \<and> anchor m \<notin> set pre \<longrightarrow>
            stored (snd (upgrade m True st)) ''engines'' =
              Some (JArr (pre @ anchor m # newEngine m # post)))"
  by (simp add: upgrade_arrays[OF assms] storage_local_set_def
                insert_engine_absent insert_engine_present)

theorem anchor_insertion_witness:
  "stored (snd (upgrade add_copyseeker True (engine_state [''a'', ''b'', ''hive''] [])))
     ''engines'' = Some (JArr [''a'', ''b'', ''hive'', ''copyseeker''])
   \<and> stored (snd (upgrade add_copyseeker True (engine_state [''a'', ''b''] [])))
     ''engines'' = Some (JArr [''a'', ''b'', ''copyseeker''])"
proof -
  have 1: "stored (engine_state [''a'', ''b'', ''hive''] []) ''engines''
             = Some (JArr ([''a'', ''b''] @ anchor add_copyseeker # []))"
    and 2: "stored (engine_state [''a'', ''b'', ''hive''] []) ''disabledEngines'' = Some (JArr [])"
    and 3: "stored (engine_state [''a'', ''b''] []) ''engines'' = Some (JArr [''a'', ''b''])"
    and 4: "stored (engine_state [''a'', ''b''] []) ''disabledEngines'' = Some (JArr [])"
    and 5: "anchor add_copyseeker \<notin> set [''a'', ''b'']"
    by (simp_all add: engine_state_def add_copyseeker_def)
  from anchor_insertion[OF 1 2, of add_copyseeker] 5
  have a: "stored (snd (upgrade add_copyseeker True (engine_state [''a'', ''b'', ''hive''] [])))
     ''engines'' = Some (JArr ([''a'', ''b''] @ anchor add_copyseeker # newEngine add_copyseeker # []))"
    by blast
  from anchor_insertion[OF 3 4, of add_copyseeker] 5
  have b: "stored (snd (upgrade add_copyseeker True (engine_state [''a'', ''b''] [])))
     ''engines'' = Some (JArr ([''a'', ''b''] @ [newEngine add_copyseeker]))"
    by blast
  from a b show ?thesis by (simp add: add_copyseeker_def)
qed

text \<open>
  C4 (totality), as amended. The upgrade succeeds on every storage area that holds
  both \<^verbatim>\<open>engines\<close> and \<^verbatim>\<open>disabledEngines\<close> as arrays, empty or not, with or without the
  anchor, when its write is accepted. When one of the two keys is not stored it
  raises \<^verbatim>\<open>TypeError\<close> and writes nothing.
\<close>
theorem upgrade_total_on_arrays:
  "(stored st ''engines'' = Some (JArr es) \<and> stored st ''disabledEngines'' = Some (JArr ds)
      \<longrightarrow> fst (upgrade m True st) = Inr ()) \<and>
   (stored st ''engines'' = None \<or> stored st ''disabledEngines'' = None
      \<longrightarrow> upgrade m accepted st = (Inl TypeError, st))"
proof (intro conjI impI)
  assume "stored st ''engines'' = Some (JArr es) \<and> stored st ''disabledEngines'' = Some (JArr ds)"
  then show "fst (upgrade m True st) = Inr ()"
    by (simp add: upgrade_arrays storage_local_set_def)
next
  assume "stored st ''engines'' = None \<or> stored st ''disabledEngines'' = None"
  then show "upgrade m accepted st = (Inl TypeError, st)"
    by (simp add: upgrade_def upgrade_changes_absent)
qed

theorem upgrade_total_on_arrays_witness:
  "fst (upgrade add_hive True (engine_state [] [])) = Inr ()
   \<and> fst (upgrade add_copyseeker True (engine_state [''google'', ''bing''] [''bing''])) = Inr ()
   \<and> upgrade add_hive True \<lparr>stored = Map.empty, writes = []\<rparr>
       = (Inl TypeError, \<lparr>stored = Map.empty, writes = []\<rparr>)"
  using upgrade_total_on_arrays[of "engine_state [] []" "[]" "[]" add_hive True]
        upgrade_total_on_arrays[of "engine_state [''google'', ''bing''] [''bing'']"
                                   "[''google'', ''bing'']" "[''bing'']" add_copyseeker True]
        upgrade_total_on_arrays[of "\<lparr>stored = Map.empty, writes = []\<rparr>" "[]" "[]" add_hive True]
  by (simp add: engine_state_def)

text \<open>
  The claim as stated fails: with \<^verbatim>\<open>engines\<close> or \<^verbatim>\<open>disabledEngines\<close> absent, line 13
  reads \<^verbatim>\<open>.length\<close> of \<^verbatim>\<open>undefined\<close>.
\<close>

theorem upgrade_total_counterexample:
  "fst (upgrade add_hive True \<lparr>stored = Map.empty, writes = []\<rparr>) = Inl TypeError
   \<and> fst (upgrade add_copyseeker True
            \<lparr>stored = [''engines'' \<mapsto> JArr [''google'', ''hive'']], writes = []\<rparr>) = Inl TypeError"
  by (simp add: upgrade_def upgrade_changes_def storage_local_get_def)

text \<open>
  C6 (state and version are committed together). Every run of an upgrade ends in one
  of two ways. Either it succeeds with exactly one more committed write, whose object
  holds \<^verbatim>\<open>engines\<close> with the new engine inserted into the list that was stored,
  \<^verbatim>\<open>disabledEngines\<close> as line 26 leaves it (the stored value when fewer than 8 engines
  were enabled, the stored list with the new engine pushed otherwise) and
  \<^verbatim>\<open>storageVersion\<close> equal to the migration's revision, and the stored object is the old
  one overridden by that object; or it fails and the storage area is exactly as
  before. It does succeed when both lists are stored as arrays and the write is
  accepted.
\<close>

theorem upgrade_commits_state_and_version:
  "((\<exists>es dv dv' changes.
        stored st ''engines'' = Some (JArr es) \<and> stored st ''disabledEngines'' = Some dv \<and>
        (int (length es) - js_length dv < 8 \<and> dv' = dv \<or>
         (\<exists>ds. dv = JArr ds \<and> 8 \<le> int (length es) - int (length ds) \<and>
               dv' = JArr (ds @ [newEngine m]))) \<and>
        changes = [''engines'' \<mapsto> JArr (insert_engine (anchor m) (newEngine m) es),
                   ''disabledEngines'' \<mapsto> dv',
                   ''storageVersion'' \<mapsto> JStr (revision m)] \<and>
        upgrade m accepted st =
          (Inr (), st\<lparr>stored := stored st ++ changes, writes := writes st @ [changes]\<rparr>))
    \<or> (\<exists>e. upgrade m accepted st = (Inl e, st)))
   \<and> (accepted \<and> stored st ''engines'' = Some (JArr es0) \<and>
        stored st ''disabledEngines'' = Some (JArr ds0)
       \<longrightarrow> fst (upgrade m accepted st) = Inr ())"
proof (intro conjI impI)
  show "(\<exists>es dv dv' changes.
        stored st ''engines'' = Some (JArr es) \<and> stored st ''disabledEngines'' = Some dv \<and>
        (int (length es) - js_length dv < 8 \<and> dv' = dv \<or>
         (\<exists>ds. dv = JArr ds \<and> 8 \<le> int (length es) - int (length ds) \<and>
               dv' = JArr (ds @ [newEngine m]))) \<and>
        changes = [''engines'' \<mapsto> JArr (insert_engine (anchor m) (newEngine m) es),
                   ''disabledEngines'' \<mapsto> dv',
                   ''storageVersion'' \<mapsto> JStr (revision m)] \<and>
        upgrade m accepted st =
          (Inr (), st\<lparr>stored := stored st ++ changes, writes := writes st @ [changes]\<rparr>))
    \<or> (\<exists>e. upgrade m accepted st = (Inl e, st))"
  proof (cases "upgrade_changes m st")
    case (Inl e)
    then show ?thesis by (simp add: upgrade_def)
  next
    case (Inr changes)
    note shape = upgrade_changes_shape[OF Inr]
    show ?thesis
    proof (cases accepted)
      case False
      with Inr have "upgrade m accepted st = (Inl StorageError, st)"
        by (simp add: upgrade_def storage_local_set_def)
      then show ?thesis by blast
    next
      case True
      with Inr have "upgrade m accepted st =
          (Inr (), st\<lparr>stored := stored st ++ changes, writes := writes st @ [changes]\<rparr>)"
        by (simp add: upgrade_def storage_local_set_def)
      with shape show ?thesis by blast
    qed
  qed
next
  assume "accepted \<and> stored st ''engines'' = Some (JArr es0) \<and>
        stored st ''disabledEngines'' = Some (JArr ds0)"
  then show "fst (upgrade m accepted st) = Inr ()"
    by (simp add: upgrade_arrays storage_local_set_def)
qed

theorem upgrade_commits_state_and_version_witness:
  "fst (upgrade add_hive True (engine_state [''unsplash'', ''google''] [])) = Inr ()
   \<and> stored (snd (upgrade add_hive True (engine_state [''unsplash'', ''google''] []))) ''engines''
       = Some (JArr [''unsplash'', ''hive'', ''google''])
   \<and> stored (snd (upgrade add_hive True (engine_state [''unsplash'', ''google''] [])))
       ''storageVersion'' = Some (JStr ''20250611183700_add_hive'')
   \<and> length (writes (snd (upgrade add_hive True (engine_state [''unsplash'', ''google''] [])))) = 1"
proof -
  let ?st = "engine_state [''unsplash'', ''google''] []"
  have h: "True \<and> stored ?st ''engines'' = Some (JArr [''unsplash'', ''google'']) \<and>
           stored ?st ''disabledEngines'' = Some (JArr [])"
    by (simp add: engine_state_def)
  from upgrade_commits_state_and_version[of ?st add_hive True "[''unsplash'', ''google'']" "[]"] h
  have ok: "fst (upgrade add_hive True ?st) = Inr ()" by blast
  have "upgrade add_hive True ?st =
          storage_local_set True
             [''engines'' \<mapsto> JArr (insert_engine (anchor add_hive) (newEngine add_hive)
                                      [''unsplash'', ''google'']),
              ''disabledEngines'' \<mapsto> JArr [],
              ''storageVersion'' \<mapsto> JStr (revision add_hive)] ?st"
    using upgrade_arrays[of ?st "[''unsplash'', ''google'']" "[]" add_hive True]
    by (simp add: engine_state_def)
  then show ?thesis using ok
    by (simp add: storage_local_set_def engine_state_def add_hive_def
                  insert_engine_def splice_insert_def Let_def)
qed

text \<open>
  C8 (frame). Whatever the outcome, every stored key other than \<^verbatim>\<open>engines\<close>,
  \<^verbatim>\<open>disabledEngines\<close> and \<^verbatim>\<open>storageVersion\<close> keeps its value, and the upgrade commits
  either nothing or one object with exactly these three keys.
\<close>
theorem upgrade_frame:
  "(\<forall>k. k \<notin> {''engines'', ''disabledEngines'', ''storageVersion''} \<longrightarrow>
        stored (snd (upgrade m accepted st)) k = stored st k) \<and>
   (writes (snd (upgrade m accepted st)) = writes st \<or>
    (\<exists>changes. writes (snd (upgrade m accepted st)) = writes st @ [changes] \<and>
        dom changes = {''engines'', ''disabledEngines'', ''storageVersion''}))"
proof (cases "upgrade_changes m st")
  case (Inl e)
  then show ?thesis by (simp add: upgrade_def)
next
  case (Inr changes)
  note keys = upgrade_changes_keys[OF Inr]
  show ?thesis
  proof (cases accepted)
    case False
    with Inr show ?thesis by (simp add: upgrade_def storage_local_set_def)
  next
    case True
    with Inr have u: "upgrade m accepted st =
        (Inr (), st\<lparr>stored := stored st ++ changes, writes := writes st @ [changes]\<rparr>)"
      by (simp add: upgrade_def storage_local_set_def)
    have "\<forall>k. k \<notin> {''engines'', ''disabledEngines'', ''storageVersion''} \<longrightarrow>
            (stored st ++ changes) k = stored st k"
    proof (intro allI impI)
      fix k :: string
      assume "k \<notin> {''engines'', ''disabledEngines'', ''storageVersion''}"
      with keys have "k \<notin> dom changes" by simp
      then show "(stored st ++ changes) k = stored st k" by (simp add: map_add_dom_app_simps)
    qed
    with u keys show ?thesis by simp
  qed
qed

theorem upgrade_frame_witness:
  "stored (snd (upgrade add_hive True
      \<lparr>stored = [''engines'' \<mapsto> JArr [''google''], ''disabledEngines'' \<mapsto> JArr [],
                 ''searchModeAction'' \<mapsto> JStr ''selectUrl''], writes = []\<rparr>)) ''searchModeAction''
     = Some (JStr ''selectUrl'')"
  using upgrade_frame[of add_hive True
      "\<lparr>stored = [''engines'' \<mapsto> JArr [''google''], ''disabledEngines'' \<mapsto> JArr [],
                 ''searchModeAction'' \<mapsto> JStr ''selectUrl''], writes = []\<rparr>"]
  by simp

text \<open>
  C9 (no guard inside the upgrade). On a storage area that holds both engine lists,
  whatever \<^verbatim>\<open>storageVersion\<close> and \<^verbatim>\<open>engines\<close> already contain, an accepted upgrade stores
  its own revision as \<^verbatim>\<open>storageVersion\<close> and an \<^verbatim>\<open>engines\<close> list with one more
  occurrence of the new engine than before; and the object it computes does not depend
  on the stored \<^verbatim>\<open>storageVersion\<close>.
\<close>
theorem upgrade_unconditional:
  assumes "stored st ''engines'' = Some (JArr es)"
      and "stored st ''disabledEngines'' = Some (JArr ds)"
  shows "fst (upgrade m True st) = Inr () \<and>
         stored (snd (upgrade m True st)) ''storageVersion'' = Some (JStr (revision m)) \<and>
         (\<exists>es'. stored (snd (upgrade m True st)) ''engines'' = Some (JArr es') \<and>
                count_list es' (newEngine m) = Suc (count_list es (newEngine m))) \<and>
         upgrade_changes m (st\<lparr>stored := (stored st)(''storageVersion'' := v)\<rparr>)
           = upgrade_changes m st"
proof -
  have "upgrade_changes m (st\<lparr>stored := (stored st)(''storageVersion'' := v)\<rparr>)
           = upgrade_changes m st"
    by (simp add: upgrade_changes_def storage_local_get_def)
  then show ?thesis
    by (simp add: upgrade_arrays[OF assms] storage_local_set_def count_insert_engine)
qed

theorem upgrade_unconditional_witness:
  "stored (snd (upgrade add_hive True
      \<lparr>stored = [''engines'' \<mapsto> JArr [''unsplash'', ''hive'', ''copyseeker''],
                 ''disabledEngines'' \<mapsto> JArr [],
                 ''storageVersion'' \<mapsto> JStr ''20250613183400_add_copyseeker''], writes = []\<rparr>))
     ''storageVersion'' = Some (JStr ''20250611183700_add_hive'')
   \<and> stored (snd (upgrade add_hive True
      \<lparr>stored = [''engines'' \<mapsto> JArr [''unsplash'', ''hive'', ''copyseeker''],
                 ''disabledEngines'' \<mapsto> JArr [],
                 ''storageVersion'' \<mapsto> JStr ''20250613183400_add_copyseeker''], writes = []\<rparr>))
     ''engines'' = Some (JArr [''unsplash'', ''hive'', ''hive'', ''copyseeker''])"
proof -
  let ?st = "\<lparr>stored = [''engines'' \<mapsto> JArr [''unsplash'', ''hive'', ''copyseeker''],
                 ''disabledEngines'' \<mapsto> JArr [],
                 ''storageVersion'' \<mapsto> JStr ''20250613183400_add_copyseeker''], writes = []\<rparr>"
  have 1: "stored ?st ''engines'' = Some (JArr [''unsplash'', ''hive'', ''copyseeker''])"
    and 2: "stored ?st ''disabledEngines'' = Some (JArr [])"
    by simp_all
  have "stored (snd (upgrade add_hive True ?st)) ''storageVersion''
          = Some (JStr (revision add_hive))"
    using upgrade_unconditional[OF 1 2, of add_hive] by blast
  moreover have "stored (snd (upgrade add_hive True ?st)) ''engines''
          = Some (JArr [''unsplash'', ''hive'', ''hive'', ''copyseeker''])"
    by (simp add: upgrade_arrays[OF 1 2] storage_local_set_def add_hive_def
                  insert_engine_def splice_insert_def Let_def)
  ultimately show ?thesis by (simp add: add_hive_def)
qed

text \<open>
  C10 (order is preserved). When the new engine does not occur in the stored
  \<^verbatim>\<open>engines\<close>, the list after an accepted upgrade is one longer, and deleting the new
  engine from it gives back the old list: nothing is removed, renamed or reordered.
\<close>
theorem upgrade_preserves_order:
  assumes "stored st ''engines'' = Some (JArr es)"
      and "stored st ''disabledEngines'' = Some (JArr ds)"
      and "newEngine m \<notin> set es"
  shows "fst (upgrade m True st) = Inr () \<and>
         (\<exists>es'. stored (snd (upgrade m True st)) ''engines'' = Some (JArr es') \<and>
                length es' = Suc (length es) \<and>
                filter (\<lambda>x. x \<noteq> newEngine m) es' = es)"
  using assms(3)
  by (simp add: upgrade_arrays[OF assms(1,2)] storage_local_set_def
                length_insert_engine filter_insert_engine)

theorem upgrade_preserves_order_witness:
  "newEngine add_hive \<notin> set [''google'', ''unsplash'', ''bing''] \<and>
   (\<exists>es'. stored (snd (upgrade add_hive True (engine_state [''google'', ''unsplash'', ''bing''] [])))
            ''engines'' = Some (JArr es') \<and>
          length es' = Suc (length [''google'', ''unsplash'', ''bing'']) \<and>
          filter (\<lambda>x. x \<noteq> ''hive'') es' = [''google'', ''unsplash'', ''bing''])"
  using upgrade_preserves_order
          [of "engine_state [''google'', ''unsplash'', ''bing''] []"
              "[''google'', ''unsplash'', ''bing'']" "[]" add_hive]
  by (simp add: engine_state_def add_hive_def)

section \<open>The claims about sequences of upgrades\<close>

text \<open>
  C3 (no duplicates), as amended. Start from a storage area whose \<^verbatim>\<open>engines\<close> has no
  duplicate and contains none of the identifiers that the migrations of the sequence
  add, and apply any sequence of upgrades in which no two add the same identifier.
  Then \<^verbatim>\<open>engines\<close> still has no duplicate, whether the anchors were found or not and
  whether the writes were accepted or not.
\<close>
theorem upgrades_keep_engines_distinct:
  assumes "stored st ''engines'' = Some (JArr es)"
      and "distinct es"
      and "distinct (map (\<lambda>p. newEngine (fst p)) ms)"
      and "set (map (\<lambda>p. newEngine (fst p)) ms) \<inter> set es = {}"
  shows "\<exists>es'. stored (snd (run_upgrades ms st)) ''engines'' = Some (JArr es') \<and> distinct es'"
  using assms by (rule run_upgrades_distinct)

theorem upgrades_keep_engines_distinct_witness:
  "\<exists>es'. stored (snd (run_upgrades [(add_hive, True), (add_copyseeker, True)]
                         (engine_state [''google'', ''bing''] [])))
            ''engines'' = Some (JArr es') \<and> distinct es'"
  using upgrades_keep_engines_distinct
          [of "engine_state [''google'', ''bing''] []" "[''google'', ''bing'']"
              "[(add_hive, True), (add_copyseeker, True)]"]
  by (simp add: engine_state_def add_hive_def add_copyseeker_def)

text \<open>
  The claim as stated fails: an upgrade does not look for its identifier. A list that
  already has \<^verbatim>\<open>hive\<close> gets a second one, here by the append of the fallback, and so
  does a list on which the same upgrade runs twice.
\<close>

theorem upgrades_keep_engines_distinct_counterexample:
  "distinct [''google'', ''hive'']
   \<and> stored (snd (run_upgrades [(add_hive, True)] (engine_state [''google'', ''hive''] [])))
       ''engines'' = Some (JArr [''google'', ''hive'', ''hive''])
   \<and> \<not> distinct [''google'', ''hive'', ''hive'']
   \<and> distinct [''unsplash'']
   \<and> stored (snd (run_upgrades [(add_hive, True), (add_hive, True)] (engine_state [''unsplash''] [])))
       ''engines'' = Some (JArr [''unsplash'', ''hive'', ''hive''])
   \<and> \<not> distinct [''unsplash'', ''hive'', ''hive'']"
  by (simp add: upgrade_eval add_hive_def)

text \<open>
  C5 (subset invariant). Start from a storage area whose \<^verbatim>\<open>disabledEngines\<close> is a subset
  of its \<^verbatim>\<open>engines\<close>. After any sequence of upgrades both lists are still stored and
  \<^verbatim>\<open>disabledEngines\<close> is still a subset of \<^verbatim>\<open>engines\<close>; and after a single accepted
  upgrade the new engine, which is the only identifier that the upgrade can add to
  \<^verbatim>\<open>disabledEngines\<close>, occurs in \<^verbatim>\<open>engines\<close>.
\<close>
theorem disabled_subset_of_engines:
  assumes "stored st ''engines'' = Some (JArr es)"
      and "stored st ''disabledEngines'' = Some (JArr ds)"
      and "set ds \<subseteq> set es"
  shows "(\<exists>es' ds'. stored (snd (run_upgrades ms st)) ''engines'' = Some (JArr es') \<and>
           stored (snd (run_upgrades ms st)) ''disabledEngines'' = Some (JArr ds') \<and>
           set ds' \<subseteq> set es') \<and>
         (\<exists>es1. stored (snd (upgrade m True st)) ''engines'' = Some (JArr es1) \<and>
           newEngine m \<in> set es1)"
proof
  show "\<exists>es' ds'. stored (snd (run_upgrades ms st)) ''engines'' = Some (JArr es') \<and>
           stored (snd (run_upgrades ms st)) ''disabledEngines'' = Some (JArr ds') \<and>
           set ds' \<subseteq> set es'"
    using assms by (rule run_upgrades_subset)
  show "\<exists>es1. stored (snd (upgrade m True st)) ''engines'' = Some (JArr es1) \<and>
           newEngine m \<in> set es1"
    by (simp add: upgrade_arrays[OF assms(1,2)] storage_local_set_def set_insert_engine)
qed

theorem disabled_subset_of_engines_witness:
  "\<exists>es' ds'. stored (snd (run_upgrades [(add_hive, True), (add_copyseeker, True)]
      (engine_state [''a'', ''b'', ''c'', ''d'', ''e'', ''f'', ''g'', ''h'', ''i''] [''i''])))
        ''engines'' = Some (JArr es') \<and>
     stored (snd (run_upgrades [(add_hive, True), (add_copyseeker, True)]
      (engine_state [''a'', ''b'', ''c'', ''d'', ''e'', ''f'', ''g'', ''h'', ''i''] [''i''])))
        ''disabledEngines'' = Some (JArr ds') \<and>
     set ds' \<subseteq> set es'"
  using disabled_subset_of_engines
     [of "engine_state [''a'', ''b'', ''c'', ''d'', ''e'', ''f'', ''g'', ''h'', ''i''] [''i'']"
         "[''a'', ''b'', ''c'', ''d'', ''e'', ''f'', ''g'', ''h'', ''i'']" "[''i'']"
         "[(add_hive, True), (add_copyseeker, True)]"]
  by (simp add: engine_state_def)

section \<open>The claim about the revision keys\<close>




end
